theory Spec2Isabelle
  imports Complex_Main "HOL-Library.Product_Lexorder" "HOL-Library.Multiset"
begin

section \<open>Data model (app/models/schemas.py)\<close>

text \<open>
  The pydantic models become records. Python floats are modelled as rationals, so every
  sum, product and quotient below is exact; dates stay strings, as in the source, and are
  only turned into timestamps by \<open>parse_date\<close>. Field names follow the source; a prefix
  separates the \<open>start\<close>/\<open>end\<close>/\<open>amount\<close> fields of the different models, and
  \<open>ceiling\<close> is written \<open>ceiling_val\<close>.
\<close>

record Expense =
  date :: string
  amount :: rat

record Transaction = Expense +
  ceiling_val :: rat
  remanent :: rat

record InvalidTransaction = Transaction +
  message :: string

record ValidationRequest =
  vr_wage :: rat
  vr_transactions :: "Transaction list"

record ValidationResponse =
  valid :: "Transaction list"
  invalid :: "InvalidTransaction list"

record QPeriod =
  fixed :: rat
  q_start :: string
  q_end :: string

record PPeriod =
  extra :: rat
  p_start :: string
  p_end :: string

record KPeriod =
  k_start :: string
  k_end :: string


record SavingsByDate =
  s_start :: string
  s_end :: string
  s_amount :: rat
  profits :: rat
  tax_benefit :: rat



section \<open>Transaction derivation (parse_transactions, orchestrator _parse)\<close>




section \<open>Validation (validate_transactions, orchestrator _validate)\<close>

text \<open>
  \<open>validate_transactions\<close> first settles \<open>is_valid\<close> and \<open>fault_message\<close> by its
  \<open>if\<close>/\<open>elif\<close> chain, then appends to \<open>valid\<close> (recording the date) or to
  \<open>invalid\<close>. The loop threads \<open>seen_dates\<close>, \<open>valid\<close> and \<open>invalid\<close>.
\<close>

definition check_transaction :: "string set \<Rightarrow> Transaction \<Rightarrow> bool \<times> string" where
  "check_transaction seen_dates t =
     (if amount t < 0 then (False, ''Negative amnt not allowed'')
      else if amount t \<ge> 500000 then (False, ''Exceeds max limit'')
      else if date t \<in> seen_dates then (False, ''Duplicate date'')
      else (True, []))"

fun validate_transactions_loop ::
  "Transaction list \<Rightarrow> string set \<Rightarrow> Transaction list \<Rightarrow> InvalidTransaction list
   \<Rightarrow> Transaction list \<times> InvalidTransaction list" where
  "validate_transactions_loop [] seen_dates vs ivs = (vs, ivs)"
| "validate_transactions_loop (t # ts) seen_dates vs ivs =
     (case check_transaction seen_dates t of
        (True, _) \<Rightarrow> validate_transactions_loop ts (insert (date t) seen_dates) (vs @ [t]) ivs
      | (False, fault_message) \<Rightarrow>
          validate_transactions_loop ts seen_dates vs
            (ivs @ [\<lparr>date = date t, amount = amount t, ceiling_val = ceiling_val t,
                     remanent = remanent t, message = fault_message\<rparr>]))"

definition validate_transactions :: "ValidationRequest \<Rightarrow> ValidationResponse" where
  "validate_transactions request =
     (case validate_transactions_loop (vr_transactions request) {} [] [] of
        (vs, ivs) \<Rightarrow> \<lparr>valid = vs, invalid = ivs\<rparr>)"

text \<open>
  The orchestrator's \<open>_validate\<close> appends inside the chain itself;
  \<open>InvalidTransaction(**t.model_dump(), message=m)\<close> copies every field of \<open>t\<close>.
\<close>

definition reject :: "Transaction \<Rightarrow> string \<Rightarrow> InvalidTransaction" where
  "reject t m = \<lparr>date = date t, amount = amount t, ceiling_val = ceiling_val t,
                 remanent = remanent t, message = m\<rparr>"

fun orchestrator_validate_loop ::
  "Transaction list \<Rightarrow> string set \<Rightarrow> Transaction list \<Rightarrow> InvalidTransaction list
   \<Rightarrow> Transaction list \<times> InvalidTransaction list" where
  "orchestrator_validate_loop [] seen_dates vs ivs = (vs, ivs)"
| "orchestrator_validate_loop (t # ts) seen_dates vs ivs =
     (if amount t < 0
      then orchestrator_validate_loop ts seen_dates vs (ivs @ [reject t ''Negative amount''])
      else if amount t \<ge> 500000
      then orchestrator_validate_loop ts seen_dates vs (ivs @ [reject t ''Exceeds max limit''])
      else if date t \<in> seen_dates
      then orchestrator_validate_loop ts seen_dates vs (ivs @ [reject t ''Duplicate date''])
      else orchestrator_validate_loop ts (insert (date t) seen_dates) (vs @ [t]) ivs)"

definition orchestrator_validate ::
  "Transaction list \<Rightarrow> Transaction list \<times> InvalidTransaction list" where
  "orchestrator_validate transactions = orchestrator_validate_loop transactions {} [] []"

section \<open>Temporal rules (app/core/temporal.py)\<close>

text \<open>
  \<open>datetime.strptime\<close> belongs to the Python library, not to the repository, so the
  functions take it as their first argument: a function from the date string and the
  format to a timestamp of some linearly ordered type, \<open>None\<close> standing for the
  \<open>ValueError\<close> that \<open>parse_date\<close> catches. Every theorem below holds for every such
  function.
\<close>

type_synonym 'd strptime = "string \<Rightarrow> string \<Rightarrow> 'd option"

definition DATE_FORMAT :: string where
  "DATE_FORMAT = ''%Y-%m-%d %H:%M:%S''"

definition parse_date :: "'d strptime \<Rightarrow> string \<Rightarrow> 'd option" where
  "parse_date strptime date_str = strptime date_str DATE_FORMAT"

text \<open>
  \<open>list.sort(key=..., reverse=True)\<close>: CPython reverses the list, sorts it stably in
  ascending key order and reverses it again, so equal keys keep their original order.
\<close>

definition py_sort_reverse :: "('a \<Rightarrow> 'k::linorder) \<Rightarrow> 'a list \<Rightarrow> 'a list" where
  "py_sort_reverse key xs = rev (sort_key key (rev xs))"

text \<open>
  The block \<open># Process Q periods\<close>: the matching periods are collected with their list
  position and parsed start, sorted by the key \<open>(start, -position)\<close> in descending order
  (tuples compare lexicographically), and the first one overrides the remanent.
\<close>

definition matching_q ::
  "'d::linorder strptime \<Rightarrow> 'd \<Rightarrow> QPeriod list \<Rightarrow> (QPeriod \<times> nat \<times> 'd) list" where
  "matching_q strptime t_date q_periods =
     List.map_filter
       (\<lambda>(i, q).
          case (parse_date strptime (q_start q), parse_date strptime (q_end q)) of
            (Some qs, Some qe) \<Rightarrow> if qs \<le> t_date \<and> t_date \<le> qe then Some (q, i, qs) else None
          | _ \<Rightarrow> None)
       (enumerate 0 q_periods)"

definition q_sort_key :: "QPeriod \<times> nat \<times> 'd \<Rightarrow> 'd \<times> int" where
  "q_sort_key x = (snd (snd x), - int (fst (snd x)))"

definition process_q_periods ::
  "'d::linorder strptime \<Rightarrow> 'd \<Rightarrow> QPeriod list \<Rightarrow> Transaction \<Rightarrow> Transaction" where
  "process_q_periods strptime t_date q_periods updated_transaction =
     (let m = matching_q strptime t_date q_periods in
      if m \<noteq> []
      then let chosen_q = fst (hd (py_sort_reverse q_sort_key m))
           in updated_transaction\<lparr>remanent := fixed chosen_q\<rparr>
      else updated_transaction)"

text \<open>The block \<open># Process P periods\<close>: the running total \<open>matching_p_extra\<close>.\<close>

definition process_p_periods :: "'d::linorder strptime \<Rightarrow> 'd \<Rightarrow> PPeriod list \<Rightarrow> rat" where
  "process_p_periods strptime t_date p_periods =
     foldl
       (\<lambda>matching_p_extra p.
          case (parse_date strptime (p_start p), parse_date strptime (p_end p)) of
            (Some ps, Some pe) \<Rightarrow>
              if ps \<le> t_date \<and> t_date \<le> pe then matching_p_extra + extra p
              else matching_p_extra
          | _ \<Rightarrow> matching_p_extra)
       0 p_periods"

text \<open>The result is the pair \<open>(transaction or None, error message or None)\<close> of the source.\<close>

definition apply_temporal_rules ::
  "'d::linorder strptime \<Rightarrow> Transaction \<Rightarrow> QPeriod list \<Rightarrow> PPeriod list \<Rightarrow> KPeriod list
   \<Rightarrow> Transaction option \<times> string option" where
  "apply_temporal_rules strptime transaction q_periods p_periods k_periods =
     (case parse_date strptime (date transaction) of
        None \<Rightarrow> (None, Some ''Invalid date format'')
      | Some t_date \<Rightarrow>
          let updated_transaction = process_q_periods strptime t_date q_periods transaction;
              matching_p_extra = process_p_periods strptime t_date p_periods
          in (Some (updated_transaction
                     \<lparr>remanent := remanent updated_transaction + matching_p_extra\<rparr>),
              None))"

definition is_in_k_period :: "'d::linorder strptime \<Rightarrow> 'd \<Rightarrow> KPeriod \<Rightarrow> bool" where
  "is_in_k_period strptime t_date k =
     (case (parse_date strptime (k_start k), parse_date strptime (k_end k)) of
        (Some ks, Some ke) \<Rightarrow> ks \<le> t_date \<and> t_date \<le> ke
      | _ \<Rightarrow> False)"

section \<open>Financial formulas (app/core/financial.py)\<close>










definition k_total :: "'d::linorder strptime \<Rightarrow> Transaction list \<Rightarrow> KPeriod \<Rightarrow> rat" where
  "k_total strptime transactions k =
     foldl
       (\<lambda>total t.
          case parse_date strptime (date t) of
            None \<Rightarrow> total
          | Some t_date \<Rightarrow> if is_in_k_period strptime t_date k then total + remanent t else total)
       0 transactions"

definition group_savings_by_k ::
  "'d::linorder strptime \<Rightarrow> Transaction list \<Rightarrow> KPeriod list \<Rightarrow> SavingsByDate list" where
  "group_savings_by_k strptime transactions k_periods =
     map (\<lambda>k. \<lparr>s_start = k_start k, s_end = k_end k,
                s_amount = k_total strptime transactions k,
                profits = 0, tax_benefit = 0\<rparr>)
         k_periods"

section \<open>Returns projection (app/api/returns.py)\<close>





section \<open>The specification's notions\<close>

text \<open>
  Containment of a timestamp in a period, bounds included; a period whose start or end does
  not parse contains nothing.
\<close>

definition in_range :: "'d::linorder option \<Rightarrow> 'd option \<Rightarrow> 'd \<Rightarrow> bool" where
  "in_range lo hi t =
     (case lo of None \<Rightarrow> False
      | Some a \<Rightarrow> (case hi of None \<Rightarrow> False | Some b \<Rightarrow> a \<le> t \<and> t \<le> b))"

definition q_contains :: "'d::linorder strptime \<Rightarrow> 'd \<Rightarrow> QPeriod \<Rightarrow> bool" where
  "q_contains strptime t q =
     in_range (parse_date strptime (q_start q)) (parse_date strptime (q_end q)) t"

definition p_contains :: "'d::linorder strptime \<Rightarrow> 'd \<Rightarrow> PPeriod \<Rightarrow> bool" where
  "p_contains strptime t p =
     in_range (parse_date strptime (p_start p)) (parse_date strptime (p_end p)) t"

definition k_contains :: "'d::linorder strptime \<Rightarrow> KPeriod \<Rightarrow> Transaction \<Rightarrow> bool" where
  "k_contains strptime k t =
     (case parse_date strptime (date t) of
        None \<Rightarrow> False
      | Some d \<Rightarrow> in_range (parse_date strptime (k_start k)) (parse_date strptime (k_end k)) d)"

text \<open>A period parses when both its start and its end do.\<close>

definition q_parses :: "'d strptime \<Rightarrow> QPeriod \<Rightarrow> bool" where
  "q_parses strptime q =
     (parse_date strptime (q_start q) \<noteq> None \<and> parse_date strptime (q_end q) \<noteq> None)"

definition p_parses :: "'d strptime \<Rightarrow> PPeriod \<Rightarrow> bool" where
  "p_parses strptime p =
     (parse_date strptime (p_start p) \<noteq> None \<and> parse_date strptime (p_end p) \<noteq> None)"

definition k_parses :: "'d strptime \<Rightarrow> KPeriod \<Rightarrow> bool" where
  "k_parses strptime k =
     (parse_date strptime (k_start k) \<noteq> None \<and> parse_date strptime (k_end k) \<noteq> None)"

text \<open>
  Position \<open>i\<close> prevails over position \<open>j\<close>: its start is later, or the starts are equal
  and \<open>i\<close> is not after \<open>j\<close>. The winner is a containing period that prevails over every
  containing period.
\<close>

definition q_prevails :: "'d::linorder strptime \<Rightarrow> QPeriod list \<Rightarrow> nat \<Rightarrow> nat \<Rightarrow> bool" where
  "q_prevails strptime qs i j =
     (case parse_date strptime (q_start (qs ! i)) of
        None \<Rightarrow> False
      | Some si \<Rightarrow>
          (case parse_date strptime (q_start (qs ! j)) of
             None \<Rightarrow> False
           | Some sj \<Rightarrow> sj < si \<or> (sj = si \<and> i \<le> j)))"

definition q_wins :: "'d::linorder strptime \<Rightarrow> 'd \<Rightarrow> QPeriod list \<Rightarrow> nat \<Rightarrow> bool" where
  "q_wins strptime t qs i =
     (i < length qs \<and> q_contains strptime t (qs ! i) \<and>
      (\<forall>j < length qs. q_contains strptime t (qs ! j) \<longrightarrow> q_prevails strptime qs i j))"

definition q_winner :: "'d::linorder strptime \<Rightarrow> 'd \<Rightarrow> QPeriod list \<Rightarrow> nat option" where
  "q_winner strptime t qs = find (q_wins strptime t qs) [0 ..< length qs]"

text \<open>The amount rules of the validator: neither negative nor at or above the cap.\<close>

definition amount_ok :: "Transaction \<Rightarrow> bool" where
  "amount_ok t = (0 \<le> amount t \<and> amount t < 500000)"

text \<open>
  The validator, in the words of the specification: the reason for rejecting a transaction
  given the dates seen so far, \<open>None\<close> when no rule matches.
\<close>

definition verdict :: "string set \<Rightarrow> Transaction \<Rightarrow> string option" where
  "verdict seen t =
     (if amount t < 0 then Some ''Negative amount''
      else if amount t \<ge> 500000 then Some ''Exceeds max limit''
      else if date t \<in> seen then Some ''Duplicate date''
      else None)"

text \<open>
  Position \<open>i\<close> holds the first transaction of its date that passes the amount rules.
\<close>

definition first_ok :: "Transaction list \<Rightarrow> nat \<Rightarrow> bool" where
  "first_ok ts i =
     (amount_ok (ts ! i) \<and> (\<forall>j<i. amount_ok (ts ! j) \<longrightarrow> date (ts ! j) \<noteq> date (ts ! i)))"

text \<open>The accepted transactions, as a recursion from the head of the input.\<close>

fun accepted :: "string set \<Rightarrow> Transaction list \<Rightarrow> Transaction list" where
  "accepted seen [] = []"
| "accepted seen (t # ts) =
     (if amount_ok t \<and> date t \<notin> seen then t # accepted (insert (date t) seen) ts
      else accepted seen ts)"





section \<open>A concrete date parser\<close>

text \<open>
  For the examples: the zero-padded form \<open>YYYY-MM-DD HH:MM:SS\<close> of the format, nineteen
  characters, read into the tuple (year, month, day, hour, minute, second) under its
  lexicographic order; out-of-range fields are refused as the library refuses them.
\<close>

type_synonym datetime = "nat \<times> nat \<times> nat \<times> nat \<times> nat \<times> nat"

definition digit :: "char \<Rightarrow> nat option" where
  "digit c = (let n = (of_char c :: nat) in if 48 \<le> n \<and> n \<le> 57 then Some (n - 48) else None)"

fun digits :: "string \<Rightarrow> nat \<Rightarrow> nat option" where
  "digits [] acc = Some acc"
| "digits (c # cs) acc =
     (case digit c of None \<Rightarrow> None | Some v \<Rightarrow> digits cs (10 * acc + v))"

definition num_field :: "string \<Rightarrow> nat \<Rightarrow> nat \<Rightarrow> nat option" where
  "num_field s pos n = digits (take n (drop pos s)) 0"

definition days_in_month :: "nat \<Rightarrow> nat \<Rightarrow> nat" where
  "days_in_month y m =
     (if m = 2 then (if y mod 4 = 0 \<and> (y mod 100 \<noteq> 0 \<or> y mod 400 = 0) then 29 else 28)
      else if m \<in> {4, 6, 9, 11} then 30 else 31)"

definition strptime_padded :: "datetime strptime" where
  "strptime_padded s fmt =
     (if fmt \<noteq> DATE_FORMAT \<or> length s \<noteq> 19
         \<or> s ! 4 \<noteq> CHR ''-'' \<or> s ! 7 \<noteq> CHR ''-'' \<or> s ! 10 \<noteq> CHR '' ''
         \<or> s ! 13 \<noteq> CHR '':'' \<or> s ! 16 \<noteq> CHR '':''
      then None
      else
        (case (num_field s 0 4, num_field s 5 2, num_field s 8 2,
              num_field s 11 2, num_field s 14 2, num_field s 17 2) of
           (Some y, Some m, Some d, Some h, Some mi, Some sec) \<Rightarrow>
             if 1 \<le> y \<and> 1 \<le> m \<and> m \<le> 12 \<and> 1 \<le> d \<and> d \<le> days_in_month y m
                \<and> h < 24 \<and> mi < 60 \<and> sec < 60
             then Some (y, m, d, h, mi, sec)
             else None
         | _ \<Rightarrow> None))"

section \<open>Example data\<close>

definition example_transactions :: "Transaction list" where
  "example_transactions =
     [\<lparr>date = ''2023-03-05 00:00:00'', amount = 250, ceiling_val = 300, remanent = 50\<rparr>,
      \<lparr>date = ''2023-03-10 00:00:00'', amount = 160, ceiling_val = 200, remanent = 40\<rparr>,
      \<lparr>date = ''not a date'', amount = 93, ceiling_val = 100, remanent = 7\<rparr>]"

definition example_q :: "QPeriod list" where
  "example_q =
     [\<lparr>fixed = 40, q_start = ''2023-03-01 00:00:00'', q_end = ''2023-03-10 00:00:00''\<rparr>,
      \<lparr>fixed = 41, q_start = ''2023-03-02 00:00:00'', q_end = ''2023-03-10 00:00:00''\<rparr>,
      \<lparr>fixed = 42, q_start = ''2023-03-02 00:00:00'', q_end = ''2023-03-07 00:00:00''\<rparr>,
      \<lparr>fixed = 43, q_start = ''2023-03-06 00:00:00'', q_end = ''2023-03-07 00:00:00''\<rparr>,
      \<lparr>fixed = 44, q_start = ''not a date'', q_end = ''2023-03-10 00:00:00''\<rparr>]"

definition example_p :: "PPeriod list" where
  "example_p =
     [\<lparr>extra = 10, p_start = ''2023-03-01 00:00:00'', p_end = ''2023-03-10 00:00:00''\<rparr>,
      \<lparr>extra = 20, p_start = ''2023-03-05 00:00:00'', p_end = ''2023-03-10 00:00:00''\<rparr>,
      \<lparr>extra = 30, p_start = ''2023-03-01 00:00:00'', p_end = ''2023-03-05 00:00:00''\<rparr>,
      \<lparr>extra = 1000, p_start = ''2023-03-06 00:00:00'', p_end = ''2023-03-07 00:00:00''\<rparr>,
      \<lparr>extra = 5000, p_start = ''2023-03-01 00:00:00'', p_end = ''not a date''\<rparr>]"

definition example_k :: "KPeriod list" where
  "example_k =
     [\<lparr>k_start = ''2023-03-01 00:00:00'', k_end = ''2023-03-10 00:00:00''\<rparr>,
      \<lparr>k_start = ''2023-03-05 00:00:00'', k_end = ''2023-03-06 00:00:00''\<rparr>,
      \<lparr>k_start = ''not a date'', k_end = ''2023-03-10 00:00:00''\<rparr>]"

definition example_batch :: "Transaction list" where
  "example_batch =
     [\<lparr>date = ''2023-03-05 00:00:00'', amount = - 5, ceiling_val = 0, remanent = 5\<rparr>,
      \<lparr>date = ''2023-03-05 00:00:00'', amount = 10, ceiling_val = 100, remanent = 90\<rparr>,
      \<lparr>date = ''2023-03-05 00:00:00'', amount = 20, ceiling_val = 100, remanent = 80\<rparr>,
      \<lparr>date = ''2023-03-06 00:00:00'', amount = 500000, ceiling_val = 500100, remanent = 100\<rparr>,
      \<lparr>date = ''2023-03-06 00:00:00'', amount = 3, ceiling_val = 100, remanent = 97\<rparr>]"


section \<open>Example timestamps\<close>

lemma parse_2023_03_01: "parse_date strptime_padded ''2023-03-01 00:00:00'' = Some (2023, 3, 1, 0, 0, 0)"
  by code_simp

lemma parse_2023_03_02: "parse_date strptime_padded ''2023-03-02 00:00:00'' = Some (2023, 3, 2, 0, 0, 0)"
  by code_simp

lemma parse_2023_03_05: "parse_date strptime_padded ''2023-03-05 00:00:00'' = Some (2023, 3, 5, 0, 0, 0)"
  by code_simp

lemma parse_2023_03_06: "parse_date strptime_padded ''2023-03-06 00:00:00'' = Some (2023, 3, 6, 0, 0, 0)"
  by code_simp

lemma parse_2023_03_07: "parse_date strptime_padded ''2023-03-07 00:00:00'' = Some (2023, 3, 7, 0, 0, 0)"
  by code_simp

lemma parse_2023_03_10: "parse_date strptime_padded ''2023-03-10 00:00:00'' = Some (2023, 3, 10, 0, 0, 0)"
  by code_simp

lemma parse_2023_13_05: "parse_date strptime_padded ''2023-13-05 00:00:00'' = None"
  by code_simp

lemma parse_not_a_date: "parse_date strptime_padded ''not a date'' = None"
  by code_simp

lemmas parse_examples =
  parse_2023_03_01 parse_2023_03_02 parse_2023_03_05 parse_2023_03_06 parse_2023_03_07
  parse_2023_03_10 parse_2023_13_05 parse_not_a_date

section \<open>Transaction derivation\<close>






section \<open>Failure of the temporal rules\<close>

text \<open>
  C4: \<open>apply_temporal_rules\<close> reports an error exactly when the transaction's date does not
  parse; then it returns no transaction and the message \<open>Invalid date format\<close>; when the
  date parses it returns a transaction and no error, whatever the Q, P and K lists are.
\<close>

theorem C4_apply_temporal_rules_failure:
  "(snd (apply_temporal_rules P t qs ps ks) \<noteq> None) = (parse_date P (date t) = None)
   \<and> (parse_date P (date t) = None \<longrightarrow>
        apply_temporal_rules P t qs ps ks = (None, Some ''Invalid date format''))
   \<and> (parse_date P (date t) \<noteq> None \<longrightarrow>
        (\<exists>u. apply_temporal_rules P t qs ps ks = (Some u, None)))"
  by (cases "parse_date P (date t)") (simp_all add: apply_temporal_rules_def Let_def)

theorem C4_apply_temporal_rules_failure_witness:
  "apply_temporal_rules strptime_padded
     \<lparr>date = ''2023-13-05 00:00:00'', amount = 250, ceiling_val = 300, remanent = 50\<rparr>
     [\<lparr>fixed = 40, q_start = ''2023-03-01 00:00:00'', q_end = ''2023-03-10 00:00:00''\<rparr>] [] []
   = (None, Some ''Invalid date format'')
   \<and> (\<exists>u. apply_temporal_rules strptime_padded
        \<lparr>date = ''2023-03-05 00:00:00'', amount = 250, ceiling_val = 300, remanent = 50\<rparr>
        [\<lparr>fixed = 40, q_start = ''not a date'', q_end = ''2023-03-10 00:00:00''\<rparr>] [] []
        = (Some u, None))"
  using
    C4_apply_temporal_rules_failure [of strptime_padded
      "\<lparr>date = ''2023-13-05 00:00:00'', amount = 250, ceiling_val = 300, remanent = 50\<rparr>"
      "[\<lparr>fixed = 40, q_start = ''2023-03-01 00:00:00'', q_end = ''2023-03-10 00:00:00''\<rparr>]"
      "[]" "[]"]
    C4_apply_temporal_rules_failure [of strptime_padded
      "\<lparr>date = ''2023-03-05 00:00:00'', amount = 250, ceiling_val = 300, remanent = 50\<rparr>"
      "[\<lparr>fixed = 40, q_start = ''not a date'', q_end = ''2023-03-10 00:00:00''\<rparr>]"
      "[]" "[]"]
  by (simp add: parse_examples)

section \<open>The validators\<close>

lemma orchestrator_loop_valid:
  "fst (orchestrator_validate_loop ts seen vs ivs) = vs @ accepted seen ts"
  by (induction ts arbitrary: seen vs ivs) (auto simp add: amount_ok_def)

lemma endpoint_loop_valid:
  "fst (validate_transactions_loop ts seen vs ivs) = vs @ accepted seen ts"
  by (induction ts arbitrary: seen vs ivs) (auto simp add: amount_ok_def check_transaction_def)

lemma valid_endpoint: "valid (validate_transactions req) = accepted {} (vr_transactions req)"
  using endpoint_loop_valid [of "vr_transactions req" "{}" "[]" "[]"]
  by (auto simp add: validate_transactions_def split: prod.splits)

lemma valid_orchestrator: "fst (orchestrator_validate ts) = accepted {} ts"
  by (simp add: orchestrator_validate_def orchestrator_loop_valid)

lemma accepted_dates:
  "t \<in> set (accepted seen ts) \<Longrightarrow> date t \<notin> seen \<and> amount_ok t \<and> t \<in> set ts"
  by (induction ts arbitrary: seen) (auto split: if_splits)

lemma accepted_distinct: "distinct (map date (accepted seen ts))"
  by (induction ts arbitrary: seen) (auto dest: accepted_dates)

lemma accepted_index:
  "accepted seen ts
   = map ((!) ts) (filter (\<lambda>i. date (ts ! i) \<notin> seen \<and> first_ok ts i) [0..<length ts])"
proof (induction ts arbitrary: seen)
  case Nil
  then show ?case by simp
next
  case (Cons t ts)
  let ?n = "length ts"
  have upt: "[0..<length (t # ts)] = 0 # map Suc [0..<?n]"
    by (simp add: upt_conv_Cons map_Suc_upt del: upt_Suc)
  have f0: "first_ok (t # ts) 0 = amount_ok t"
    by (simp add: first_ok_def)
  have fs: "first_ok (t # ts) (Suc i)
            = (first_ok ts i \<and> (amount_ok t \<longrightarrow> date t \<noteq> date (ts ! i)))" for i
    by (auto simp add: first_ok_def All_less_Suc2)
  have tl: "map ((!) (t # ts))
              (filter (\<lambda>i. date ((t # ts) ! i) \<notin> seen \<and> first_ok (t # ts) i) (map Suc [0..<?n]))
            = map ((!) ts)
                (filter (\<lambda>i. date (ts ! i) \<notin> seen \<and> first_ok ts i
                              \<and> (amount_ok t \<longrightarrow> date t \<noteq> date (ts ! i))) [0..<?n])"
    by (simp add: filter_map comp_def fs)
  show ?case
  proof (cases "amount_ok t \<and> date t \<notin> seen")
    case True
    have "filter (\<lambda>i. date (ts ! i) \<notin> seen \<and> first_ok ts i
                       \<and> (amount_ok t \<longrightarrow> date t \<noteq> date (ts ! i))) [0..<?n]
          = filter (\<lambda>i. date (ts ! i) \<notin> insert (date t) seen \<and> first_ok ts i) [0..<?n]"
      using True by (intro filter_cong refl) auto
    with True show ?thesis
      unfolding upt using Cons.IH [of "insert (date t) seen"] tl
      by (simp add: f0)
  next
    case False
    have "filter (\<lambda>i. date (ts ! i) \<notin> seen \<and> first_ok ts i
                       \<and> (amount_ok t \<longrightarrow> date t \<noteq> date (ts ! i))) [0..<?n]
          = filter (\<lambda>i. date (ts ! i) \<notin> seen \<and> first_ok ts i) [0..<?n]"
      using False by (intro filter_cong refl) auto
    with False show ?thesis
      unfolding upt using Cons.IH [of seen] tl
      by (auto simp add: f0)
  qed
qed

text \<open>
  The rules of the orchestrator's \<open>_validate\<close>, one transaction at a time: the transaction
  appended last is judged against the dates of the transactions accepted before it, and is
  either accepted or rejected with the reason of the first rule that matches.
\<close>

lemma orchestrator_loop_snoc:
  "seen = date ` set vs \<Longrightarrow>
   orchestrator_validate_loop (ts @ [t]) seen vs ivs
   = (case orchestrator_validate_loop ts seen vs ivs of
        (vs', ivs') \<Rightarrow>
          (case verdict (date ` set vs') t of
             None \<Rightarrow> (vs' @ [t], ivs')
           | Some m \<Rightarrow> (vs', ivs' @ [reject t m])))"
proof (induction ts arbitrary: seen vs ivs)
  case Nil
  then show ?case by (simp add: verdict_def)
next
  case (Cons x ts)
  have ins: "insert (date x) seen = date ` set (vs @ [x])"
    using Cons.prems by auto
  show ?case
    using Cons.IH [OF Cons.prems] Cons.IH [OF ins] by simp
qed

lemma orchestrator_validate_rules:
  "orchestrator_validate [] = ([], [])"
  "orchestrator_validate (ts @ [t])
   = (case orchestrator_validate ts of
        (vs, ivs) \<Rightarrow>
          (case verdict (date ` set vs) t of
             None \<Rightarrow> (vs @ [t], ivs)
           | Some m \<Rightarrow> (vs, ivs @ [reject t m])))"
  by (simp_all add: orchestrator_validate_def orchestrator_loop_snoc)

text \<open>
  C2 holds for the orchestrator's \<open>_validate\<close> (the lemma above) but not for the endpoint
  \<open>validate_transactions\<close>: the same three rules in the same order, yet its reason for a
  negative amount is \<open>Negative amnt not allowed\<close>, not \<open>Negative amount\<close>.
\<close>

theorem C2_negative_amount_message:
  "validate_transactions
     \<lparr>vr_wage = 80000,
      vr_transactions =
        [\<lparr>date = ''2023-03-07 00:00:00'', amount = - 50, ceiling_val = 0, remanent = 50\<rparr>]\<rparr>
   = \<lparr>valid = [],
      invalid = [\<lparr>date = ''2023-03-07 00:00:00'', amount = - 50, ceiling_val = 0,
                  remanent = 50, message = ''Negative amnt not allowed''\<rparr>]\<rparr>
   \<and> orchestrator_validate
       [\<lparr>date = ''2023-03-07 00:00:00'', amount = - 50, ceiling_val = 0, remanent = 50\<rparr>]
     = ([], [\<lparr>date = ''2023-03-07 00:00:00'', amount = - 50, ceiling_val = 0,
               remanent = 50, message = ''Negative amount''\<rparr>])"
  by (simp add: validate_transactions_def check_transaction_def orchestrator_validate_def
      reject_def)

text \<open>
  C6: both validators accept the same transactions; no two accepted transactions share a
  date; and the accepted ones are, in input order, exactly the transactions at the
  positions that hold the first transaction of their date among those passing the amount
  rules. A transaction rejected for its amount therefore never blocks a later one of the
  same date: only accepted dates are recorded.
\<close>

theorem C6_first_eligible_date_wins:
  "let ts = vr_transactions request; vs = valid (validate_transactions request) in
     fst (orchestrator_validate ts) = vs
     \<and> distinct (map date vs)
     \<and> vs = map ((!) ts) (filter (first_ok ts) [0..<length ts])"
proof -
  let ?ts = "vr_transactions request"
  have "distinct (map date (accepted {} ?ts))"
    by (rule accepted_distinct)
  moreover have "accepted {} ?ts = map ((!) ?ts) (filter (first_ok ?ts) [0..<length ?ts])"
    by (simp add: accepted_index)
  ultimately show ?thesis
    by (simp only: Let_def valid_endpoint valid_orchestrator simp_thms)
qed

theorem C6_first_eligible_date_wins_witness:
  "valid (validate_transactions \<lparr>vr_wage = 80000, vr_transactions = example_batch\<rparr>)
   = [example_batch ! 1, example_batch ! 4]
   \<and> fst (orchestrator_validate example_batch) = [example_batch ! 1, example_batch ! 4]"
  using C6_first_eligible_date_wins [of "\<lparr>vr_wage = 80000, vr_transactions = example_batch\<rparr>"]
  by (simp add: Let_def example_batch_def first_ok_def amount_ok_def upt_conv_Cons
      All_less_Suc2)

section \<open>Grouping by K periods\<close>

lemma k_total_sum:
  "k_total P ts k = sum_list (map remanent (filter (k_contains P k) ts))"
proof -
  have "foldl (\<lambda>total t. case parse_date P (date t) of None \<Rightarrow> total
            | Some t_date \<Rightarrow> if is_in_k_period P t_date k then total + remanent t else total) a ts
        = a + sum_list (map remanent (filter (k_contains P k) ts))" for a
    by (induction ts arbitrary: a)
       (auto simp add: k_contains_def is_in_k_period_def in_range_def split: option.splits)
  then show ?thesis by (simp add: k_total_def)
qed




section \<open>Selection of the Q period\<close>

lemma sorted_le_last: "sorted ys \<Longrightarrow> y \<in> set ys \<Longrightarrow> y \<le> last ys"
  by (induction ys) auto

lemma in_set_map_filter:
  "(y \<in> set (List.map_filter f xs)) = (\<exists>x\<in>set xs. f x = Some y)"
  by (induction xs) (auto split: option.splits)

lemma hd_py_sort_reverse:
  assumes "xs \<noteq> []"
  shows "hd (py_sort_reverse f xs) \<in> set xs"
    and "x \<in> set xs \<Longrightarrow> f x \<le> f (hd (py_sort_reverse f xs))"
proof -
  let ?ys = "sort_key f (rev xs)"
  have ne: "?ys \<noteq> []"
    using assms by (metis length_0_conv length_rev length_sort)
  have hd: "hd (py_sort_reverse f xs) = last ?ys"
    by (simp add: py_sort_reverse_def hd_rev)
  have "last ?ys \<in> set ?ys"
    using ne by (rule last_in_set)
  then show "hd (py_sort_reverse f xs) \<in> set xs"
    by (simp add: hd)
  assume "x \<in> set xs"
  then have "f x \<in> set (map f ?ys)" by simp
  moreover have "sorted (map f ?ys)" by (rule sorted_sort_key)
  ultimately have "f x \<le> last (map f ?ys)"
    by (rule sorted_le_last [rotated])
  then show "f x \<le> f (hd (py_sort_reverse f xs))"
    using ne by (simp add: hd last_map)
qed

lemma q_contains_iff:
  "q_contains P d q
   = (\<exists>s e. parse_date P (q_start q) = Some s \<and> parse_date P (q_end q) = Some e
            \<and> s \<le> d \<and> d \<le> e)"
  by (auto simp add: q_contains_def in_range_def split: option.splits)

lemma matching_q_set:
  "(q, i, s) \<in> set (matching_q P d qs)
   = (i < length qs \<and> q = qs ! i \<and> parse_date P (q_start q) = Some s \<and> q_contains P d q)"
proof
  assume "(q, i, s) \<in> set (matching_q P d qs)"
  then show "i < length qs \<and> q = qs ! i \<and> parse_date P (q_start q) = Some s
             \<and> q_contains P d q"
    by (auto simp add: matching_q_def in_set_map_filter in_set_enumerate_eq q_contains_iff
        split: option.splits if_splits)
next
  assume r: "i < length qs \<and> q = qs ! i \<and> parse_date P (q_start q) = Some s
             \<and> q_contains P d q"
  then have "(i, q) \<in> set (enumerate 0 qs)"
    by (simp add: in_set_enumerate_eq)
  moreover have "(case (i, q) of (i, q) \<Rightarrow>
       case (parse_date P (q_start q), parse_date P (q_end q)) of
         (Some qs, Some qe) \<Rightarrow> if qs \<le> d \<and> d \<le> qe then Some (q, i, qs) else None
       | _ \<Rightarrow> None) = Some (q, i, s)"
    using r by (auto simp add: q_contains_iff)
  ultimately show "(q, i, s) \<in> set (matching_q P d qs)"
    unfolding matching_q_def in_set_map_filter by (rule bexI [rotated])
qed

lemma matching_q_empty:
  "(matching_q P d qs = []) = (\<forall>i<length qs. \<not> q_contains P d (qs ! i))"
proof
  assume e: "matching_q P d qs = []"
  show "\<forall>i<length qs. \<not> q_contains P d (qs ! i)"
  proof (intro allI impI notI)
    fix i assume "i < length qs" "q_contains P d (qs ! i)"
    then obtain s where "(qs ! i, i, s) \<in> set (matching_q P d qs)"
      unfolding matching_q_set by (auto simp add: q_contains_iff)
    with e show False by simp
  qed
next
  assume n: "\<forall>i<length qs. \<not> q_contains P d (qs ! i)"
  show "matching_q P d qs = []"
  proof (rule ccontr)
    assume "matching_q P d qs \<noteq> []"
    then obtain q i s where "(q, i, s) \<in> set (matching_q P d qs)"
      by (metis last_in_set prod_cases3)
    then show False
      using n by (auto simp add: matching_q_set)
  qed
qed

lemma q_wins_unique:
  assumes "q_wins P d qs i" and "q_wins P d qs j"
  shows "i = j"
proof -
  have "q_prevails P qs i j" "q_prevails P qs j i"
    using assms by (auto simp add: q_wins_def)
  then show ?thesis
    by (auto simp add: q_prevails_def split: option.splits)
qed

lemma chosen_q_wins:
  assumes "matching_q P d qs \<noteq> []"
  shows "\<exists>i. q_wins P d qs i
             \<and> fst (hd (py_sort_reverse q_sort_key (matching_q P d qs))) = qs ! i"
proof -
  let ?m = "matching_q P d qs"
  obtain q i s where y: "hd (py_sort_reverse q_sort_key ?m) = (q, i, s)"
    by (metis prod_cases3)
  have mem: "(q, i, s) \<in> set ?m"
    using hd_py_sort_reverse(1) [OF assms, of q_sort_key] by (simp add: y)
  then have i: "i < length qs" "q = qs ! i" "parse_date P (q_start (qs ! i)) = Some s"
    "q_contains P d (qs ! i)"
    by (auto simp add: matching_q_set)
  have "q_prevails P qs i j" if j: "j < length qs" "q_contains P d (qs ! j)" for j
  proof -
    obtain sj where sj: "parse_date P (q_start (qs ! j)) = Some sj"
      using j(2) by (auto simp add: q_contains_iff)
    then have "(qs ! j, j, sj) \<in> set ?m"
      using j by (simp add: matching_q_set)
    then have "q_sort_key (qs ! j, j, sj) \<le> q_sort_key (q, i, s)"
      using hd_py_sort_reverse(2) [OF assms, of _ q_sort_key] by (simp add: y)
    then show ?thesis
      by (auto simp add: q_sort_key_def q_prevails_def i sj)
  qed
  then have "q_wins P d qs i"
    using i by (simp add: q_wins_def)
  then show ?thesis
    using i by (auto simp add: y)
qed

lemma process_q_periods_wins:
  assumes "q_wins P d qs i"
  shows "process_q_periods P d qs t = t\<lparr>remanent := fixed (qs ! i)\<rparr>"
proof -
  have ne: "matching_q P d qs \<noteq> []"
    using assms by (auto simp add: matching_q_empty q_wins_def)
  from chosen_q_wins [OF ne] obtain j where
    j: "q_wins P d qs j" "fst (hd (py_sort_reverse q_sort_key (matching_q P d qs))) = qs ! j"
    by blast
  have "j = i" using j(1) assms by (rule q_wins_unique)
  then show ?thesis
    using ne j(2) by (simp add: process_q_periods_def Let_def)
qed

lemma process_q_periods_none:
  assumes "\<forall>i<length qs. \<not> q_contains P d (qs ! i)"
  shows "process_q_periods P d qs t = t"
  using assms by (simp add: process_q_periods_def Let_def matching_q_empty)

lemma q_wins_exists:
  assumes "\<exists>i<length qs. q_contains P d (qs ! i)"
  shows "\<exists>i. q_wins P d qs i"
proof -
  have "matching_q P d qs \<noteq> []"
    using assms by (simp add: matching_q_empty)
  from chosen_q_wins [OF this] show ?thesis by blast
qed

lemma q_winner_Some: "(q_winner P d qs = Some i) = q_wins P d qs i"
proof
  assume "q_winner P d qs = Some i"
  then show "q_wins P d qs i"
    by (auto simp add: q_winner_def find_Some_iff)
next
  assume w: "q_wins P d qs i"
  then have i: "i < length qs" by (simp add: q_wins_def)
  have "\<not> q_wins P d qs j" if "j < i" for j
    using that w q_wins_unique by blast
  then show "q_winner P d qs = Some i"
    using w i by (auto simp add: q_winner_def find_Some_iff intro!: exI [of _ i])
qed

lemma q_winner_None: "(q_winner P d qs = None) = (\<forall>i<length qs. \<not> q_contains P d (qs ! i))"
proof
  assume n: "q_winner P d qs = None"
  show "\<forall>i<length qs. \<not> q_contains P d (qs ! i)"
  proof (rule ccontr)
    assume "\<not> (\<forall>i<length qs. \<not> q_contains P d (qs ! i))"
    then obtain i where "q_wins P d qs i"
      using q_wins_exists by blast
    then show False using n by (simp add: q_winner_Some [symmetric])
  qed
next
  assume "\<forall>i<length qs. \<not> q_contains P d (qs ! i)"
  then show "q_winner P d qs = None"
    by (auto simp add: q_winner_def find_None_iff q_wins_def)
qed

lemma process_p_periods_sum:
  "process_p_periods P d ps = sum_list (map extra (filter (p_contains P d) ps))"
proof -
  have "foldl (\<lambda>matching_p_extra p.
          case (parse_date P (p_start p), parse_date P (p_end p)) of
            (Some ps, Some pe) \<Rightarrow>
              if ps \<le> d \<and> d \<le> pe then matching_p_extra + extra p else matching_p_extra
          | _ \<Rightarrow> matching_p_extra) a ps
        = a + sum_list (map extra (filter (p_contains P d) ps))" for a
    by (induction ps arbitrary: a)
       (auto simp add: p_contains_def in_range_def split: option.splits)
  then show ?thesis by (simp add: process_p_periods_def)
qed

text \<open>
  The winner without positions: a containing period that starts later than every
  containing period before it and no earlier than every containing period after it.
\<close>

lemma q_wins_between:
  assumes q: "q_contains P d q" and s: "parse_date P (q_start q) = Some s"
    and A: "\<And>a sa. a \<in> set A \<Longrightarrow> q_contains P d a \<Longrightarrow> parse_date P (q_start a) = Some sa
              \<Longrightarrow> sa < s"
    and B: "\<And>b sb. b \<in> set B \<Longrightarrow> q_contains P d b \<Longrightarrow> parse_date P (q_start b) = Some sb
              \<Longrightarrow> sb \<le> s"
  shows "q_wins P d (A @ q # B) (length A)"
proof -
  let ?qs = "A @ q # B"
  have "q_prevails P ?qs (length A) j" if j: "j < length ?qs" "q_contains P d (?qs ! j)" for j
  proof -
    obtain sj where sj: "parse_date P (q_start (?qs ! j)) = Some sj"
      using j(2) by (auto simp add: q_contains_iff)
    consider "j < length A" | "j = length A" | "length A < j" by linarith
    then show ?thesis
    proof cases
      case 1
      then have "A ! j \<in> set A" "?qs ! j = A ! j"
        by (simp_all add: nth_append)
      then have "sj < s" using A j(2) sj by metis
      then show ?thesis by (simp add: q_prevails_def s sj)
    next
      case 2
      then show ?thesis by (simp add: q_prevails_def s)
    next
      case 3
      then have e: "?qs ! j = B ! (j - Suc (length A))"
        by (simp add: nth_append nth_Cons')
      have "j - Suc (length A) < length B" using 3 j(1) by simp
      then have "B ! (j - Suc (length A)) \<in> set B" by simp
      then have "sj \<le> s" using B j(2) sj e by metis
      then show ?thesis using 3 by (auto simp add: q_prevails_def s sj)
    qed
  qed
  then show ?thesis
    using q by (simp add: q_wins_def)
qed

lemma q_wins_splits:
  assumes "q_wins P d qs i" and s: "parse_date P (q_start (qs ! i)) = Some s"
  shows "qs = take i qs @ qs ! i # drop (Suc i) qs"
    and "a \<in> set (take i qs) \<Longrightarrow> q_contains P d a \<Longrightarrow> parse_date P (q_start a) = Some sa
         \<Longrightarrow> sa < s"
    and "b \<in> set (drop (Suc i) qs) \<Longrightarrow> q_contains P d b \<Longrightarrow> parse_date P (q_start b) = Some sb
         \<Longrightarrow> sb \<le> s"
proof -
  have i: "i < length qs"
    and pre: "\<And>j. j < length qs \<Longrightarrow> q_contains P d (qs ! j) \<Longrightarrow> q_prevails P qs i j"
    using assms(1) by (auto simp add: q_wins_def)
  show "qs = take i qs @ qs ! i # drop (Suc i) qs"
    using i by (rule id_take_nth_drop)
  {
    assume a: "a \<in> set (take i qs)" "q_contains P d a" "parse_date P (q_start a) = Some sa"
    then obtain j where j: "j < i" "a = qs ! j"
      using i by (auto simp add: in_set_conv_nth)
    then have "q_prevails P qs i j" using pre a(2) i by simp
    then show "sa < s" using j a(3) s by (auto simp add: q_prevails_def)
  }
  {
    assume b: "b \<in> set (drop (Suc i) qs)" "q_contains P d b" "parse_date P (q_start b) = Some sb"
    then obtain k where "k < length (drop (Suc i) qs)" "b = drop (Suc i) qs ! k"
      by (metis in_set_conv_nth)
    then have k: "Suc i + k < length qs" "b = qs ! (Suc i + k)"
      by simp_all
    then have "q_prevails P qs i (Suc i + k)" using pre b(2) by simp
    then show "sb \<le> s" using k b(3) s by (auto simp add: q_prevails_def)
  }
qed

lemma q_contains_parses: "q_contains P d q \<Longrightarrow> q_parses P q"
  by (auto simp add: q_contains_iff q_parses_def)

lemma process_q_periods_filter:
  "process_q_periods P d (filter (q_parses P) qs) t = process_q_periods P d qs t"
proof (cases "\<exists>i<length qs. q_contains P d (qs ! i)")
  case True
  then obtain i where w: "q_wins P d qs i"
    using q_wins_exists by blast
  then have c: "q_contains P d (qs ! i)" by (simp add: q_wins_def)
  then obtain s where s: "parse_date P (q_start (qs ! i)) = Some s"
    by (auto simp add: q_contains_iff)
  let ?A = "take i qs" and ?B = "drop (Suc i) qs" and ?f = "filter (q_parses P)"
  note sp = q_wins_splits [OF w s]
  have "?f qs = ?f (?A @ qs ! i # ?B)"
    using sp(1) by simp
  then have f: "?f qs = ?f ?A @ qs ! i # ?f ?B"
    using q_contains_parses [OF c] by simp
  have "q_wins P d (?f ?A @ qs ! i # ?f ?B) (length (?f ?A))"
  proof (rule q_wins_between [OF c s])
    fix a sa assume "a \<in> set (?f ?A)" "q_contains P d a" "parse_date P (q_start a) = Some sa"
    then show "sa < s" using sp(2) [of a sa] by simp
  next
    fix b sb assume "b \<in> set (?f ?B)" "q_contains P d b" "parse_date P (q_start b) = Some sb"
    then show "sb \<le> s" using sp(3) [of b sb] by simp
  qed
  then have "process_q_periods P d (?f qs) t
             = t\<lparr>remanent := fixed ((?f ?A @ qs ! i # ?f ?B) ! length (?f ?A))\<rparr>"
    unfolding f by (rule process_q_periods_wins)
  then show ?thesis
    by (simp add: process_q_periods_wins [OF w])
next
  case False
  have "\<not> q_contains P d (filter (q_parses P) qs ! j)" if "j < length (filter (q_parses P) qs)" for j
  proof -
    have "filter (q_parses P) qs ! j \<in> set qs"
      using that nth_mem by fastforce
    then show ?thesis using False by (auto simp add: in_set_conv_nth)
  qed
  then show ?thesis
    using False by (simp add: process_q_periods_none)
qed

lemma p_contains_parses: "p_contains P d p \<Longrightarrow> p_parses P p"
  by (auto simp add: p_contains_def in_range_def p_parses_def split: option.splits)

lemma process_p_periods_filter:
  "process_p_periods P d (filter (p_parses P) ps) = process_p_periods P d ps"
proof -
  have "filter (p_contains P d) (filter (p_parses P) ps) = filter (p_contains P d) ps"
    by (auto simp add: p_contains_parses intro!: filter_cong)
  then show ?thesis by (simp add: process_p_periods_sum)
qed

lemma apply_temporal_rules_parsed:
  assumes "parse_date P (date t) = Some d"
  shows "apply_temporal_rules P t qs ps ks
         = (Some ((process_q_periods P d qs t)
                   \<lparr>remanent := remanent (process_q_periods P d qs t)
                                 + sum_list (map extra (filter (p_contains P d) ps))\<rparr>),
            None)"
  using assms by (simp add: apply_temporal_rules_def Let_def process_p_periods_sum)

lemma process_q_periods_nil: "process_q_periods P d [] t = t"
  by (simp add: process_q_periods_none)

text \<open>
  C1: let the date of the transaction parse. When some Q period contains it, exactly one
  position wins (latest start, and among equal starts the lowest position; the ends play
  no part), and the Q list acts as the replacement of the remanent by the winner's
  \<open>fixed\<close>: running the rules equals running them without Q periods on the transaction
  so changed, and with no P period the result is that transaction itself. When no Q period
  contains the date the Q list has no effect at all.
\<close>

theorem C1_q_period_selection:
  assumes "parse_date P (date t) = Some d"
  shows "if \<exists>i<length qs. q_contains P d (qs ! i)
         then (\<exists>!i. q_wins P d qs i)
              \<and> (\<forall>i. q_wins P d qs i \<longrightarrow>
                    apply_temporal_rules P t qs ps ks
                      = apply_temporal_rules P (t\<lparr>remanent := fixed (qs ! i)\<rparr>) [] ps ks
                    \<and> apply_temporal_rules P t qs [] ks
                      = (Some (t\<lparr>remanent := fixed (qs ! i)\<rparr>), None))
         else apply_temporal_rules P t qs ps ks = apply_temporal_rules P t [] ps ks
              \<and> apply_temporal_rules P t qs [] ks = (Some t, None)"
proof (cases "\<exists>i<length qs. q_contains P d (qs ! i)")
  case True
  have ex: "\<exists>!i. q_wins P d qs i"
  proof (rule ex_ex1I)
    show "\<exists>i. q_wins P d qs i" by (rule q_wins_exists [OF True])
    show "\<And>i j. q_wins P d qs i \<Longrightarrow> q_wins P d qs j \<Longrightarrow> i = j" by (rule q_wins_unique)
  qed
  have a: "apply_temporal_rules P t qs ps' ks
        = apply_temporal_rules P (t\<lparr>remanent := fixed (qs ! i)\<rparr>) [] ps' ks"
    if "q_wins P d qs i" for i ps'
    using assms
    by (simp add: apply_temporal_rules_parsed process_q_periods_wins [OF that]
        process_q_periods_nil)
  have b: "apply_temporal_rules P (t\<lparr>remanent := fixed (qs ! i)\<rparr>) [] [] ks
        = (Some (t\<lparr>remanent := fixed (qs ! i)\<rparr>), None)" for i
    using assms by (simp add: apply_temporal_rules_parsed process_q_periods_nil)
  have c: "apply_temporal_rules P t qs [] ks = (Some (t\<lparr>remanent := fixed (qs ! i)\<rparr>), None)"
    if "q_wins P d qs i" for i
    using a [OF that, of "[]"] b [of i] by (rule trans)
  have "(\<exists>!i. q_wins P d qs i)
        \<and> (\<forall>i. q_wins P d qs i \<longrightarrow>
              apply_temporal_rules P t qs ps ks
                = apply_temporal_rules P (t\<lparr>remanent := fixed (qs ! i)\<rparr>) [] ps ks
              \<and> apply_temporal_rules P t qs [] ks
                = (Some (t\<lparr>remanent := fixed (qs ! i)\<rparr>), None))"
  proof (intro conjI allI impI)
    show "\<exists>!i. q_wins P d qs i" by (rule ex)
  next
    fix i assume "q_wins P d qs i"
    then show "apply_temporal_rules P t qs ps ks
                = apply_temporal_rules P (t\<lparr>remanent := fixed (qs ! i)\<rparr>) [] ps ks"
      by (rule a)
  next
    fix i assume "q_wins P d qs i"
    then show "apply_temporal_rules P t qs [] ks
                = (Some (t\<lparr>remanent := fixed (qs ! i)\<rparr>), None)"
      by (rule c)
  qed
  then show ?thesis
    unfolding if_P [OF True] .
next
  case False
  then have n: "\<forall>i<length qs. \<not> q_contains P d (qs ! i)" by simp
  have a: "apply_temporal_rules P t qs ps' ks = apply_temporal_rules P t [] ps' ks" for ps'
    using assms
    by (simp add: apply_temporal_rules_parsed process_q_periods_none [OF n]
        process_q_periods_nil)
  have b: "apply_temporal_rules P t [] [] ks = (Some t, None)"
    using assms by (simp add: apply_temporal_rules_parsed process_q_periods_nil)
  have "apply_temporal_rules P t qs ps ks = apply_temporal_rules P t [] ps ks
        \<and> apply_temporal_rules P t qs [] ks = (Some t, None)"
    using a [of ps] a [of "[]"] b by (simp only: simp_thms)
  then show ?thesis
    unfolding if_not_P [OF False] .
qed

lemma example_date: "parse_date strptime_padded (date (example_transactions ! 0))
    = Some (2023, 3, 5, 0, 0, 0)"
  by (simp add: example_transactions_def parse_examples)

lemma example_q_wins: "q_wins strptime_padded (2023, 3, 5, 0, 0, 0) example_q 1"
  by (simp add: q_wins_def q_contains_def q_prevails_def in_range_def example_q_def
      parse_examples All_less_Suc)

theorem C1_q_period_selection_witness:
  "q_wins strptime_padded (2023, 3, 5, 0, 0, 0) example_q 1
   \<and> apply_temporal_rules strptime_padded (example_transactions ! 0) example_q [] []
     = (Some \<lparr>date = ''2023-03-05 00:00:00'', amount = 250, ceiling_val = 300,
              remanent = 41\<rparr>, None)
   \<and> apply_temporal_rules strptime_padded (example_transactions ! 0) [example_q ! 3] [] []
     = (Some (example_transactions ! 0), None)"
proof -
  have c: "\<exists>i<length example_q.
      q_contains strptime_padded (2023, 3, 5, 0, 0, 0) (example_q ! i)"
    using example_q_wins by (auto simp add: q_wins_def)
  have n: "\<not> (\<exists>i<length [example_q ! 3].
      q_contains strptime_padded (2023, 3, 5, 0, 0, 0) ([example_q ! 3] ! i))"
    by (simp add: q_contains_def in_range_def example_q_def parse_examples)
  show ?thesis
    using C1_q_period_selection [OF example_date, of example_q "[]" "[]"]
      C1_q_period_selection [OF example_date, of "[example_q ! 3]" "[]" "[]"]
      c n example_q_wins
    by (auto simp add: example_q_def example_transactions_def)
qed

text \<open>
  C3: for a transaction whose date parses, the result is the transaction with its
  remanent set to the base value plus the sum of the \<open>extra\<close> of every P period that
  contains the date, where the base value is the \<open>fixed\<close> of the winning Q period if some
  Q period contains the date and the original remanent otherwise; no error is returned.
\<close>

theorem C3_final_remanent:
  assumes "parse_date P (date t) = Some d"
  shows "apply_temporal_rules P t qs ps ks
         = (Some (t\<lparr>remanent :=
                     (case q_winner P d qs of None \<Rightarrow> remanent t | Some i \<Rightarrow> fixed (qs ! i))
                     + sum_list (map extra (filter (p_contains P d) ps))\<rparr>),
            None)
         \<and> (q_winner P d qs = None) = (\<forall>i<length qs. \<not> q_contains P d (qs ! i))
         \<and> (\<forall>i. (q_winner P d qs = Some i) = q_wins P d qs i)"
proof -
  have "process_q_periods P d qs t
        = t\<lparr>remanent := (case q_winner P d qs of None \<Rightarrow> remanent t
                           | Some i \<Rightarrow> fixed (qs ! i))\<rparr>"
  proof (cases "q_winner P d qs")
    case None
    then have "\<forall>i<length qs. \<not> q_contains P d (qs ! i)"
      by (simp add: q_winner_None)
    then show ?thesis
      using None by (simp add: process_q_periods_none)
  next
    case (Some i)
    then have "q_wins P d qs i"
      by (simp add: q_winner_Some)
    then show ?thesis
      using Some by (simp add: process_q_periods_wins)
  qed
  then show ?thesis
    using assms by (simp add: apply_temporal_rules_parsed q_winner_None q_winner_Some)
qed

lemma example_q_winner: "q_winner strptime_padded (2023, 3, 5, 0, 0, 0) example_q = Some 1"
  using example_q_wins by (simp add: q_winner_Some)

theorem C3_final_remanent_witness:
  "apply_temporal_rules strptime_padded (example_transactions ! 0) example_q example_p example_k
   = (Some \<lparr>date = ''2023-03-05 00:00:00'', amount = 250, ceiling_val = 300,
            remanent = 101\<rparr>, None)
   \<and> apply_temporal_rules strptime_padded (example_transactions ! 0) [] example_p example_k
   = (Some \<lparr>date = ''2023-03-05 00:00:00'', amount = 250, ceiling_val = 300,
            remanent = 110\<rparr>, None)"
proof -
  have n: "q_winner strptime_padded (2023, 3, 5, 0, 0, 0) [] = None"
    by (simp add: q_winner_def)
  have f: "fixed (example_q ! Suc 0) = 41"
    by (simp add: example_q_def)
  have s: "sum_list (map extra (filter (p_contains strptime_padded (2023, 3, 5, 0, 0, 0))
             example_p)) = 60"
    by (simp add: example_p_def p_contains_def in_range_def parse_examples)
  show ?thesis
    using C3_final_remanent [OF example_date, of example_q example_p example_k]
      C3_final_remanent [OF example_date, of "[]" example_p example_k]
    by (simp add: n f s example_q_winner example_transactions_def)
qed

text \<open>
  C10: Q and P periods whose start or end does not parse can be dropped from the lists
  without changing the result of \<open>apply_temporal_rules\<close>, its error component included;
  the result does not depend on the K list at all; a period that does not parse contains
  no date; and the bucket of a K period that does not parse has amount 0.
\<close>

theorem C10_unparsable_periods_skipped:
  "apply_temporal_rules P t qs ps ks
   = apply_temporal_rules P t (filter (q_parses P) qs) (filter (p_parses P) ps) ks'
   \<and> (\<not> q_parses P q \<longrightarrow> \<not> q_contains P d q)
   \<and> (\<not> p_parses P p \<longrightarrow> \<not> p_contains P d p)
   \<and> (\<not> k_parses P k \<longrightarrow> \<not> k_contains P k t \<and> \<not> is_in_k_period P d k)
   \<and> (i < length ks \<and> \<not> k_parses P (ks ! i) \<longrightarrow>
        group_savings_by_k P ts ks ! i
        = \<lparr>s_start = k_start (ks ! i), s_end = k_end (ks ! i), s_amount = 0,
           profits = 0, tax_benefit = 0\<rparr>)"
proof (intro conjI)
  show "apply_temporal_rules P t qs ps ks
        = apply_temporal_rules P t (filter (q_parses P) qs) (filter (p_parses P) ps) ks'"
    by (simp add: apply_temporal_rules_def Let_def process_q_periods_filter
        process_p_periods_filter split: option.splits)
  show "\<not> q_parses P q \<longrightarrow> \<not> q_contains P d q"
    using q_contains_parses by blast
  show "\<not> p_parses P p \<longrightarrow> \<not> p_contains P d p"
    using p_contains_parses by blast
  have kc: "\<not> k_contains P k' t'" if "\<not> k_parses P k'" for k' t'
    using that
    by (auto simp add: k_contains_def in_range_def k_parses_def split: option.splits)
  show "\<not> k_parses P k \<longrightarrow> \<not> k_contains P k t \<and> \<not> is_in_k_period P d k"
    using kc by (auto simp add: is_in_k_period_def k_parses_def split: option.splits)
  show "i < length ks \<and> \<not> k_parses P (ks ! i) \<longrightarrow>
        group_savings_by_k P ts ks ! i
        = \<lparr>s_start = k_start (ks ! i), s_end = k_end (ks ! i), s_amount = 0,
           profits = 0, tax_benefit = 0\<rparr>"
  proof
    assume a: "i < length ks \<and> \<not> k_parses P (ks ! i)"
    then have "filter (k_contains P (ks ! i)) ts = []"
      using kc by (simp add: filter_empty_conv)
    then show "group_savings_by_k P ts ks ! i
        = \<lparr>s_start = k_start (ks ! i), s_end = k_end (ks ! i), s_amount = 0,
           profits = 0, tax_benefit = 0\<rparr>"
      using a by (simp add: group_savings_by_k_def k_total_sum)
  qed
qed

theorem C10_unparsable_periods_skipped_witness:
  "apply_temporal_rules strptime_padded (example_transactions ! 0) example_q example_p example_k
   = apply_temporal_rules strptime_padded (example_transactions ! 0)
       (take 4 example_q) (take 4 example_p) []
   \<and> \<not> q_contains strptime_padded (2023, 3, 5, 0, 0, 0) (example_q ! 4)
   \<and> \<not> p_contains strptime_padded (2023, 3, 5, 0, 0, 0) (example_p ! 4)
   \<and> s_amount (group_savings_by_k strptime_padded example_transactions example_k ! 2) = 0"
proof -
  have q: "filter (q_parses strptime_padded) example_q = take 4 example_q"
    by (simp add: example_q_def q_parses_def parse_examples)
  have p: "filter (p_parses strptime_padded) example_p = take 4 example_p"
    by (simp add: example_p_def p_parses_def parse_examples)
  have nq: "\<not> q_parses strptime_padded (example_q ! 4)"
    by (simp add: example_q_def q_parses_def parse_examples)
  have np: "\<not> p_parses strptime_padded (example_p ! 4)"
    by (simp add: example_p_def p_parses_def parse_examples)
  have nk: "2 < length example_k \<and> \<not> k_parses strptime_padded (example_k ! 2)"
    by (simp add: example_k_def k_parses_def parse_examples)
  show ?thesis
    using C10_unparsable_periods_skipped [of strptime_padded "example_transactions ! 0"
        example_q example_p example_k "[]" "example_q ! 4" "(2023, 3, 5, 0, 0, 0)"
        "example_p ! 4" "example_k ! 2" 2 example_transactions]
      nq np nk
    by (simp add: q p)
qed

section \<open>The tax schedule\<close>





section \<open>The returns projection\<close>














section \<open>Time horizon\<close>




end
